theory Spec2Isabelle
  imports Main
begin

section \<open>Python strings\<close>

text \<open>
  A Python \<open>str\<close> is a sequence of Unicode code points. It is modelled as a list of
  natural numbers, one per code point, so that \<open>length\<close> counts what Python's
  \<open>len\<close> counts. An ASCII literal of the source is written \<open>lit ''...''\<close>.
\<close>

type_synonym str = "nat list"

definition lit :: "string \<Rightarrow> str" where
  "lit cs = map of_char cs"

definition nl :: nat where
  "nl = 10"

definition isspace :: "nat \<Rightarrow> bool" where
  \<comment> \<open>the code points that \<open>str.strip()\<close> removes (those with \<open>str.isspace\<close>)\<close>
  "isspace c \<longleftrightarrow>
     (9 \<le> c \<and> c \<le> 13) \<or> (28 \<le> c \<and> c \<le> 32) \<or> c = 133 \<or> c = 160 \<or> c = 5760 \<or>
     (8192 \<le> c \<and> c \<le> 8202) \<or> c = 8232 \<or> c = 8233 \<or> c = 8239 \<or> c = 8287 \<or> c = 12288"

definition strip :: "str \<Rightarrow> str" where
  "strip s = rev (dropWhile isspace (rev (dropWhile isspace s)))"

definition startswith :: "str \<Rightarrow> str \<Rightarrow> bool" where
  "startswith s p \<longleftrightarrow> take (length p) s = p"

definition endswith :: "str \<Rightarrow> str \<Rightarrow> bool" where
  "endswith s p \<longleftrightarrow> length p \<le> length s \<and> drop (length s - length p) s = p"

fun join :: "str \<Rightarrow> str list \<Rightarrow> str" where
  "join sep [] = []"
| "join sep [x] = x"
| "join sep (x # y # ys) = x @ sep @ join sep (y # ys)"

fun split_nl :: "str \<Rightarrow> str list" where
  \<comment> \<open>\<open>s.split('\n')\<close>\<close>
  "split_nl [] = [[]]"
| "split_nl (c # cs) =
     (if c = nl then [] # split_nl cs
      else (case split_nl cs of [] \<Rightarrow> [[c]] | l # ls \<Rightarrow> (c # l) # ls))"

section \<open>The two regular expressions\<close>

text \<open>
  \<open>clean_html_tags\<close> substitutes the empty string for every match of \<open><.*?>\<close>. The
  scan goes from left to right; at a \<open><\<close> the non-greedy \<open>.*?\<close> stops at the first
  \<open>>\<close>, and since \<open>.\<close> does not match a newline the attempt fails when a newline comes
  first. A failed attempt keeps the character and moves one position on.
\<close>

fun match_tag :: "str \<Rightarrow> str option" where
  \<comment> \<open>the text after a \<open><\<close>: what follows the match of \<open>.*?>\<close>, if there is one\<close>
  "match_tag [] = None"
| "match_tag (c # cs) =
     (if c = of_char CHR ''>'' then Some cs
      else if c = nl then None
      else match_tag cs)"

lemma match_tag_shorter: "match_tag cs = Some r \<Longrightarrow> length r < length cs"
  by (induction cs) (auto split: if_splits)

function clean_html_tags :: "str \<Rightarrow> str" where
  "clean_html_tags [] = []"
| "clean_html_tags (c # cs) =
     (if c = of_char CHR ''<'' then
        (case match_tag cs of
           Some r \<Rightarrow> clean_html_tags r
         | None \<Rightarrow> c # clean_html_tags cs)
      else c # clean_html_tags cs)"
  by pat_completeness auto
termination
  by (relation "measure length") (auto dest: match_tag_shorter)

text \<open>
  \<open>re.findall(r'<t[hd]>(.*?)</t[hd]>', row_line)\<close> returns the group of every match,
  left to right, the matches not overlapping. After an opening \<open><th>\<close> or \<open><td>\<close> the
  group is the shortest text without a newline that is followed by \<open></th>\<close> or
  \<open></td>\<close>.
\<close>

definition cell_open :: "str \<Rightarrow> bool" where
  "cell_open s \<longleftrightarrow> startswith s (lit ''<th>'') \<or> startswith s (lit ''<td>'')"

definition cell_close :: "str \<Rightarrow> bool" where
  "cell_close s \<longleftrightarrow> startswith s (lit ''</th>'') \<or> startswith s (lit ''</td>'')"

fun match_cell :: "str \<Rightarrow> (str \<times> str) option" where
  \<comment> \<open>the text after an opening tag: the group and what follows the closing tag\<close>
  "match_cell [] = None"
| "match_cell (c # cs) =
     (if cell_close (c # cs) then Some ([], drop 5 (c # cs))
      else if c = nl then None
      else (case match_cell cs of
              None \<Rightarrow> None
            | Some (g, r) \<Rightarrow> Some (c # g, r)))"

lemma match_cell_shorter: "match_cell cs = Some (g, r) \<Longrightarrow> length r < length cs"
  by (induction cs arbitrary: g) (auto split: if_splits option.splits)

function findall_cells :: "str \<Rightarrow> str list" where
  "findall_cells [] = []"
| "findall_cells (c # cs) =
     (if cell_open (c # cs) then
        (case match_cell (drop 4 (c # cs)) of
           Some (g, r) \<Rightarrow> g # findall_cells r
         | None \<Rightarrow> findall_cells cs)
      else findall_cells cs)"
  by pat_completeness auto
termination
  by (relation "measure length") (auto dest!: match_cell_shorter)

section \<open>Flow elements\<close>

datatype style =
  CustomHeading1 | CustomHeading2 | CustomHeading3 | CustomHeading4 | CustomHeading5 |
  CustomHeading6 | CustomCode | CustomQuote | Normal

text \<open>
  The flowables the converter appends to \<open>elements\<close>: \<open>Paragraph(text, style)\<close>,
  \<open>Preformatted(text, style)\<close>, \<open>Table(table_data)\<close> (its \<open>TableStyle\<close> is one fixed
  value) and \<open>Spacer(width, height)\<close>.
\<close>

datatype element =
  Paragraph str style
| Preformatted str style
| Table "str list list"
| Spacer nat nat

text \<open>
  The constructor \<open>Paragraph(text, style)\<close> of the layout library parses its text as
  markup when it is called, and raises \<open>ValueError\<close> on a text it cannot parse, for
  instance one that holds the beginning of a tag. The parser belongs to the library,
  not to the repository: \<open>accepts\<close> is the parameter that tells which texts it takes.
  The exception is not caught inside \<open>parse_markdown_to_elements\<close>, so it ends the
  loop. \<open>Preformatted\<close> and \<open>Table\<close> keep their text as it is.
\<close>

datatype error = ValueError

definition new_paragraph :: "(str \<Rightarrow> bool) \<Rightarrow> str \<Rightarrow> style \<Rightarrow> error + element" where
  "new_paragraph accepts text style =
     (if accepts text then Inr (Paragraph text style) else Inl ValueError)"

definition emit :: "error + element \<Rightarrow> nat \<Rightarrow> nat \<Rightarrow> error + element list \<times> nat" where
  \<comment> \<open>append the element built and \<open>Spacer(1, h)\<close>, then go on at index \<open>j\<close>\<close>
  "emit built h j = (case built of Inl e \<Rightarrow> Inl e | Inr p \<Rightarrow> Inr ([p, Spacer 1 h], j))"

section \<open>The loop of \<open>parse_markdown_to_elements\<close>\<close>

text \<open>
  The three inner \<open>while\<close> loops. Each takes the list of lines, the index \<open>i\<close> and the
  list it appends to, and returns the index it stops at together with that list.
\<close>

function code_loop :: "str list \<Rightarrow> nat \<Rightarrow> str list \<Rightarrow> nat \<times> str list" where
  "code_loop lines i code_lines =
     (if i < length lines \<and> \<not> endswith (strip (lines ! i)) (lit ''</code></pre>'')
      then code_loop lines (i + 1) (code_lines @ [lines ! i])
      else (i, code_lines))"
  by pat_completeness auto
termination
  by (relation "measure (\<lambda>(lines, i, code_lines). length lines - i)") auto

declare code_loop.simps [simp del]

function quote_loop :: "str list \<Rightarrow> nat \<Rightarrow> str list \<Rightarrow> nat \<times> str list" where
  "quote_loop lines i quote_lines =
     (if i < length lines \<and> \<not> endswith (strip (lines ! i)) (lit ''</blockquote>'')
      then quote_loop lines (i + 1) (quote_lines @ [clean_html_tags (lines ! i)])
      else (i, quote_lines))"
  by pat_completeness auto
termination
  by (relation "measure (\<lambda>(lines, i, quote_lines). length lines - i)") auto

declare quote_loop.simps [simp del]

definition table_row :: "str \<Rightarrow> str list list \<Rightarrow> str list list" where
  \<comment> \<open>the body of the table loop for one line: \<open>table_data\<close> after it\<close>
  "table_row row_line table_data =
     (if startswith row_line (lit ''<tr>'') then
        (let row_data = map clean_html_tags (findall_cells row_line)
         in if row_data \<noteq> [] then table_data @ [row_data] else table_data)
      else table_data)"

function table_loop :: "str list \<Rightarrow> nat \<Rightarrow> str list list \<Rightarrow> nat \<times> str list list" where
  "table_loop lines i table_data =
     (if i < length lines \<and> \<not> startswith (strip (lines ! i)) (lit ''</table>'')
      then table_loop lines (i + 1) (table_row (strip (lines ! i)) table_data)
      else (i, table_data))"
  by pat_completeness auto
termination
  by (relation "measure (\<lambda>(lines, i, table_data). length lines - i)") auto

declare table_loop.simps [simp del]

definition bullet :: str where
  \<comment> \<open>the three code points before the space in the source's literal, U+00E2 U+20AC U+00A2\<close>
  "bullet = [226, 8364, 162, 32]"

text \<open>
  One pass through the body of the outer \<open>while\<close> loop at index \<open>i < len(lines)\<close>:
  either the exception that a constructor raises, or the elements the pass appends and
  the index after the final \<open>i += 1\<close>.
\<close>

definition step :: "(str \<Rightarrow> bool) \<Rightarrow> str list \<Rightarrow> nat \<Rightarrow> error + element list \<times> nat" where
  "step accepts lines i =
    (let line = strip (lines ! i) in
     if line = [] then Inr ([], i + 1)
     else if startswith line (lit ''<h1>'') then
       emit (new_paragraph accepts (clean_html_tags line) CustomHeading1) 12 (i + 1)
     else if startswith line (lit ''<h2>'') then
       emit (new_paragraph accepts (clean_html_tags line) CustomHeading2) 10 (i + 1)
     else if startswith line (lit ''<h3>'') then
       emit (new_paragraph accepts (clean_html_tags line) CustomHeading3) 8 (i + 1)
     else if startswith line (lit ''<h4>'') then
       emit (new_paragraph accepts (clean_html_tags line) CustomHeading4) 6 (i + 1)
     else if startswith line (lit ''<h5>'') then
       emit (new_paragraph accepts (clean_html_tags line) CustomHeading5) 4 (i + 1)
     else if startswith line (lit ''<h6>'') then
       emit (new_paragraph accepts (clean_html_tags line) CustomHeading6) 4 (i + 1)
     else if startswith line (lit ''<pre><code>'') then
       (if endswith line (lit ''</code></pre>'') then
          Inr ([Preformatted (clean_html_tags line) CustomCode, Spacer 1 12], i + 1)
        else
          (case code_loop lines (i + 1) [clean_html_tags line] of
             (j, code_lines) \<Rightarrow>
               (let code_lines' =
                      (if j < length lines then code_lines @ [clean_html_tags (lines ! j)]
                       else code_lines)
                in Inr ([Preformatted (join [nl] code_lines') CustomCode, Spacer 1 12], j + 1))))
     else if startswith line (lit ''<blockquote>'') then
       (if endswith line (lit ''</blockquote>'') then
          emit (new_paragraph accepts (clean_html_tags line) CustomQuote) 12 (i + 1)
        else
          (case quote_loop lines (i + 1) [clean_html_tags line] of
             (j, quote_lines) \<Rightarrow>
               (let quote_lines' =
                      (if j < length lines then quote_lines @ [clean_html_tags (lines ! j)]
                       else quote_lines)
                in emit (new_paragraph accepts (join (lit '' '') quote_lines') CustomQuote)
                     12 (j + 1))))
     else if startswith line (lit ''<table>'') then
       (case table_loop lines (i + 1) [] of
          (j, table_data) \<Rightarrow>
            (if table_data \<noteq> [] then Inr ([Table table_data, Spacer 1 12], j + 1)
             else Inr ([], j + 1)))
     else if startswith line (lit ''<p>'') then
       (let text = clean_html_tags line in
        if strip text \<noteq> [] then emit (new_paragraph accepts text Normal) 6 (i + 1)
        else Inr ([], i + 1))
     else if startswith line (lit ''<li>'') then
       emit (new_paragraph accepts (bullet @ clean_html_tags line) Normal) 3 (i + 1)
     else
       (let text = clean_html_tags line in
        if strip text \<noteq> [] then emit (new_paragraph accepts text Normal) 6 (i + 1)
        else Inr ([], i + 1)))"

lemma code_loop_ge: "i \<le> fst (code_loop lines i acc)"
proof (induction lines i acc rule: code_loop.induct)
  case (1 lines i code_lines)
  show ?case
  proof (cases "i < length lines \<and> \<not> endswith (strip (lines ! i)) (lit ''</code></pre>'')")
    case True
    with 1 have "i + 1 \<le> fst (code_loop lines (i + 1) (code_lines @ [lines ! i]))" by simp
    with True show ?thesis by (subst code_loop.simps) simp
  next
    case False
    then show ?thesis by (subst code_loop.simps) auto
  qed
qed

lemma quote_loop_ge: "i \<le> fst (quote_loop lines i acc)"
proof (induction lines i acc rule: quote_loop.induct)
  case (1 lines i quote_lines)
  show ?case
  proof (cases "i < length lines \<and> \<not> endswith (strip (lines ! i)) (lit ''</blockquote>'')")
    case True
    with 1 have "i + 1 \<le> fst (quote_loop lines (i + 1) (quote_lines @ [clean_html_tags (lines ! i)]))"
      by simp
    with True show ?thesis by (subst quote_loop.simps) simp
  next
    case False
    then show ?thesis by (subst quote_loop.simps) auto
  qed
qed

lemma table_loop_ge: "i \<le> fst (table_loop lines i acc)"
proof (induction lines i acc rule: table_loop.induct)
  case (1 lines i table_data)
  show ?case
  proof (cases "i < length lines \<and> \<not> startswith (strip (lines ! i)) (lit ''</table>'')")
    case True
    with 1 have "i + 1 \<le> fst (table_loop lines (i + 1) (table_row (strip (lines ! i)) table_data))"
      by simp
    with True show ?thesis by (subst table_loop.simps) simp
  next
    case False
    then show ?thesis by (subst table_loop.simps) auto
  qed
qed

lemma emit_Inr: "emit built h j = Inr (es, j') \<Longrightarrow> j' = j"
  by (cases built) (simp_all add: emit_def)

lemma step_advances:
  assumes "step accepts lines i = Inr (es, j)"
  shows "i < j"
proof -
  have c: "i < fst (code_loop lines (i + 1) acc) + 1" for acc
    using code_loop_ge [of "i + 1" lines acc] by simp
  have q: "i < fst (quote_loop lines (i + 1) acc) + 1" for acc
    using quote_loop_ge [of "i + 1" lines acc] by simp
  have t: "i < fst (table_loop lines (i + 1) acc) + 1" for acc
    using table_loop_ge [of "i + 1" lines acc] by simp
  from assms c q t show ?thesis
    by (auto simp: step_def Let_def split_beta dest!: emit_Inr split: if_splits)
qed

text \<open>
  The outer loop, \<open>elements\<close> being the list built so far. The function is total: the
  index grows in every pass that returns (\<open>step_advances\<close>), and a pass that raises
  ends the loop.
\<close>

function parse_loop ::
  "(str \<Rightarrow> bool) \<Rightarrow> str list \<Rightarrow> nat \<Rightarrow> element list \<Rightarrow> error + element list" where
  "parse_loop accepts lines i elements =
     (if i < length lines then
        (case step accepts lines i of
           Inl e \<Rightarrow> Inl e
         | Inr (es, i') \<Rightarrow> parse_loop accepts lines i' (elements @ es))
      else Inr elements)"
  by pat_completeness auto
termination
proof (relation "measure (\<lambda>(accepts, lines, i, elements). length lines - i)")
  show "wf (measure (\<lambda>(accepts, lines, i, elements). length lines - i))" by simp
next
  fix accepts :: "str \<Rightarrow> bool" and lines :: "str list" and i :: nat
    and elements x :: "element list" and y :: nat and r :: "element list \<times> nat"
  assume "i < length lines" and "step accepts lines i = Inr r" and "(x, y) = r"
  then have "i < length lines" and "step accepts lines i = Inr (x, y)" by simp_all
  with step_advances [of accepts lines i x y] have "i < y" and "i < length lines" by simp_all
  then show "((accepts, lines, y, elements @ x), (accepts, lines, i, elements))
      \<in> measure (\<lambda>(accepts, lines, i, elements). length lines - i)" by simp
qed

declare parse_loop.simps [simp del]

text \<open>
  \<open>markdown2.markdown\<close> with its four extras is a library outside the repository; it is
  the parameter \<open>markdown\<close>.
\<close>

definition parse_markdown_to_elements ::
  "(str \<Rightarrow> str) \<Rightarrow> (str \<Rightarrow> bool) \<Rightarrow> str \<Rightarrow> error + element list" where
  "parse_markdown_to_elements markdown accepts markdown_content =
     parse_loop accepts (split_nl (markdown markdown_content)) 0 []"

section \<open>Headings\<close>




section \<open>Closing markers and table rows\<close>

text \<open>
  The tests of the three inner loops on a raw line, and the rows that the table loop
  collects from the lines it passes over: the lines that start with \<open><tr>\<close> after
  stripping, each turned into its list of cell texts, those with no cell left out.
\<close>

definition closes_code :: "str \<Rightarrow> bool" where
  "closes_code l \<longleftrightarrow> endswith (strip l) (lit ''</code></pre>'')"


definition closes_table :: "str \<Rightarrow> bool" where
  "closes_table l \<longleftrightarrow> startswith (strip l) (lit ''</table>'')"

definition row_cells :: "str \<Rightarrow> str list" where
  "row_cells l = map clean_html_tags (findall_cells (strip l))"

definition table_rows :: "str list \<Rightarrow> str list list" where
  "table_rows body =
     filter (\<lambda>row. row \<noteq> [])
       (map row_cells (filter (\<lambda>l. startswith (strip l) (lit ''<tr>'')) body))"

section \<open>The passes of the outer loop\<close>

text \<open>
  The indices at which the body of the outer loop runs when the loop is entered at
  index \<open>i\<close>, in order: one entry for every pass. A pass that raises is the last one.
  \<open>pass_elements\<close> is what the pass at an index appends, \<open>raises\<close> tells whether it
  ends in an exception.
\<close>

function loop_indices :: "(str \<Rightarrow> bool) \<Rightarrow> str list \<Rightarrow> nat \<Rightarrow> nat list" where
  "loop_indices accepts lines i =
     (if i < length lines then
        i # (case step accepts lines i of
               Inl e \<Rightarrow> []
             | Inr (es, i') \<Rightarrow> loop_indices accepts lines i')
      else [])"
  by pat_completeness auto
termination
proof (relation "measure (\<lambda>(accepts, lines, i). length lines - i)")
  show "wf (measure (\<lambda>(accepts, lines, i). length lines - i))" by simp
next
  fix accepts :: "str \<Rightarrow> bool" and lines :: "str list" and i :: nat
    and x :: "element list" and y :: nat and r :: "element list \<times> nat"
  assume "i < length lines" and "step accepts lines i = Inr r" and "(x, y) = r"
  then have "i < length lines" and "step accepts lines i = Inr (x, y)" by simp_all
  with step_advances [of accepts lines i x y] have "i < y" and "i < length lines" by simp_all
  then show "((accepts, lines, y), (accepts, lines, i))
      \<in> measure (\<lambda>(accepts, lines, i). length lines - i)" by simp
qed

declare loop_indices.simps [simp del]

definition pass_elements :: "(str \<Rightarrow> bool) \<Rightarrow> str list \<Rightarrow> nat \<Rightarrow> element list" where
  "pass_elements accepts lines k =
     (case step accepts lines k of Inl e \<Rightarrow> [] | Inr (es, j) \<Rightarrow> es)"

definition raises :: "(str \<Rightarrow> bool) \<Rightarrow> str list \<Rightarrow> nat \<Rightarrow> bool" where
  "raises accepts lines k = (case step accepts lines k of Inl e \<Rightarrow> True | Inr r \<Rightarrow> False)"

text \<open>
  For the examples: a constructor that takes exactly the texts that hold no \<open><\<close>. On
  the texts of the examples it does what the library does: it takes plain words and
  refuses a text that holds the beginning of a tag.
\<close>

definition example_accepts :: "str \<Rightarrow> bool" where
  "example_accepts text \<longleftrightarrow> of_char CHR ''<'' \<notin> set text"

fun is_spacer :: "element \<Rightarrow> bool" where
  "is_spacer (Spacer w h) = True"
| "is_spacer _ = False"

text \<open>
  \<open>follows_content prev es\<close>: in \<open>es\<close> every spacer comes right after an element that
  is not a spacer, where \<open>prev\<close> tells whether such an element stands before \<open>es\<close>.
\<close>

fun follows_content :: "bool \<Rightarrow> element list \<Rightarrow> bool" where
  "follows_content prev [] = True"
| "follows_content prev (e # es) = ((is_spacer e \<longrightarrow> prev) \<and> follows_content (\<not> is_spacer e) es)"

section \<open>The two command-line programs\<close>

text \<open>
  \<open>args\<close> is what \<open>parser.parse_args()\<close> returns: the list \<open>input_files\<close> and the
  value \<open>output'\<close> of \<open>-o/--output\<close>, \<open>None\<close> when the option is absent. A Python string is true
  in a condition when it is not empty.
\<close>

record args =
  input_files :: "str list"
  output' :: "str option"

definition truthy :: "str option \<Rightarrow> bool" where
  "truthy v = (case v of None \<Rightarrow> False | Some s \<Rightarrow> s \<noteq> [])"

text \<open>
  What lies outside the two \<open>main\<close> functions is a parameter. \<open>'w\<close> is the state of the
  world (the file system and whatever a conversion writes); \<open>path_exists\<close> is
  \<open>os.path.exists\<close>, \<open>lower\<close> is \<open>str.lower\<close> (the case mapping of the Python runtime),
  and \<open>convert\<close> is the call of \<open>convert_markdown_to_pdf\<close> with a file and an output
  name: the Boolean it returns and the world it leaves. The call is taken to return:
  the function catches the exceptions of reading and of rendering and reports them as
  \<open>False\<close>. The lines it prints itself are not recorded.
\<close>

record 'w env =
  path_exists :: "'w \<Rightarrow> str \<Rightarrow> bool"
  lower :: "str \<Rightarrow> str"
  convert :: "str \<Rightarrow> str option \<Rightarrow> 'w \<Rightarrow> bool \<times> 'w"

text \<open>
  The lines that \<open>main\<close> prints itself: the conflict error, the two warnings with the
  file they name, and the summary \<open>Conversion complete: X/Y files processed
  successfully.\<close> with its two numbers. The run of a program is recorded as its exit
  code, these lines, the calls of \<open>convert_markdown_to_pdf\<close> it made (file, output
  name, result) and the world at the end. A \<open>main\<close> that returns gives exit code 0,
  \<open>sys.exit(1)\<close> gives 1.
\<close>

datatype message =
  ConflictError
| NotExistWarning str
| NotMarkdownWarning str
| Summary nat nat

record 'w run =
  exit_code :: nat
  stdout :: "message list"
  calls :: "(str \<times> str option \<times> bool) list"
  world :: 'w

text \<open>
  The \<open>for\<close> loop of \<open>md_to_pdf_converter.main\<close> over the remaining files. The state
  is \<open>success_count\<close>, the lines printed, the calls made and the world.
\<close>

fun main_files ::
  "'w env \<Rightarrow> str option \<Rightarrow> str list \<Rightarrow> nat \<times> message list \<times> (str \<times> str option \<times> bool) list \<times> 'w
     \<Rightarrow> nat \<times> message list \<times> (str \<times> str option \<times> bool) list \<times> 'w" where
  "main_files env out [] st = st"
| "main_files env out (markdown_file # fs) (success_count, printed, called, w) =
     (if \<not> path_exists env w markdown_file then
        main_files env out fs
          (success_count, printed @ [NotExistWarning markdown_file], called, w)
      else if \<not> (endswith (lower env markdown_file) (lit ''.md'')
                 \<or> endswith (lower env markdown_file) (lit ''.markdown'')) then
        main_files env out fs
          (success_count, printed @ [NotMarkdownWarning markdown_file], called, w)
      else
        (let output_file = (if truthy out then out else None) in
         case convert env markdown_file output_file w of
           (ok, w') \<Rightarrow>
             main_files env out fs
               (if ok then success_count + 1 else success_count, printed,
                called @ [(markdown_file, output_file, ok)], w')))"

definition main :: "'w env \<Rightarrow> args \<Rightarrow> 'w \<Rightarrow> 'w run" where
  "main env a w =
     (if length (input_files a) > 1 \<and> truthy (output' a) then
        \<lparr>exit_code = 1, stdout = [ConflictError], calls = [], world = w\<rparr>
      else
        (let total_count = length (input_files a) in
         case main_files env (output' a) (input_files a) (0, [], [], w) of
           (success_count, printed, called, w') \<Rightarrow>
             \<lparr>exit_code = (if success_count = 0 then 1 else 0),
              stdout = printed @ [Summary success_count total_count],
              calls = called, world = w'\<rparr>))"

text \<open>
  The same for \<open>md_to_pdf_converter_windows.main\<close>, where \<open>convert\<close> stands for
  \<open>converter.convert_markdown_to_pdf\<close>.
\<close>

fun main_windows_files ::
  "'w env \<Rightarrow> str option \<Rightarrow> str list \<Rightarrow> nat \<times> message list \<times> (str \<times> str option \<times> bool) list \<times> 'w
     \<Rightarrow> nat \<times> message list \<times> (str \<times> str option \<times> bool) list \<times> 'w" where
  "main_windows_files env out [] st = st"
| "main_windows_files env out (markdown_file # fs) (success_count, printed, called, w) =
     (if \<not> path_exists env w markdown_file then
        main_windows_files env out fs
          (success_count, printed @ [NotExistWarning markdown_file], called, w)
      else if \<not> (endswith (lower env markdown_file) (lit ''.md'')
                 \<or> endswith (lower env markdown_file) (lit ''.markdown'')) then
        main_windows_files env out fs
          (success_count, printed @ [NotMarkdownWarning markdown_file], called, w)
      else
        (let output_file = (if truthy out then out else None) in
         case convert env markdown_file output_file w of
           (ok, w') \<Rightarrow>
             main_windows_files env out fs
               (if ok then success_count + 1 else success_count, printed,
                called @ [(markdown_file, output_file, ok)], w')))"

definition main_windows :: "'w env \<Rightarrow> args \<Rightarrow> 'w \<Rightarrow> 'w run" where
  "main_windows env a w =
     (if length (input_files a) > 1 \<and> truthy (output' a) then
        \<lparr>exit_code = 1, stdout = [ConflictError], calls = [], world = w\<rparr>
      else
        (let total_count = length (input_files a) in
         case main_windows_files env (output' a) (input_files a) (0, [], [], w) of
           (success_count, printed, called, w') \<Rightarrow>
             \<lparr>exit_code = (if success_count = 0 then 1 else 0),
              stdout = printed @ [Summary success_count total_count],
              calls = called, world = w'\<rparr>))"

text \<open>
  The denominators \<open>Y\<close> of the summary lines in an output, and whether a file is one
  that the check before the conversion skips.
\<close>

fun denominators :: "message list \<Rightarrow> nat list" where
  "denominators [] = []"
| "denominators (Summary x y # ms) = y # denominators ms"
| "denominators (m # ms) = denominators ms"

definition skipped :: "'w env \<Rightarrow> 'w \<Rightarrow> str \<Rightarrow> bool" where
  "skipped env w f \<longleftrightarrow>
     \<not> path_exists env w f \<or>
     \<not> (endswith (lower env f) (lit ''.md'') \<or> endswith (lower env f) (lit ''.markdown''))"

text \<open>
  An environment for the examples: the world is the list of the files that exist,
  \<open>lower\<close> maps the ASCII capitals, and a conversion succeeds and adds its output file
  to the world: the name given or else the input name with \<open>pdf\<close> in place of what
  follows its last dot.
\<close>

definition example_env :: "(str list) env" where
  "example_env =
     \<lparr>path_exists = (\<lambda>w f. f \<in> set w),
      lower = map (\<lambda>c. if 65 \<le> c \<and> c \<le> 90 then c + 32 else c),
      convert = (\<lambda>f out w.
        (True,
         w @ [case out of
                Some name \<Rightarrow> name
              | None \<Rightarrow> rev (dropWhile (\<lambda>c. c \<noteq> of_char CHR ''.'') (rev f)) @ lit ''pdf'']))\<rparr>"

section \<open>Prefixes that exclude one another\<close>

lemmas str_defs = lit_def strip_def startswith_def endswith_def isspace_def nl_def

lemmas step_defs = step_def emit_def new_paragraph_def example_accepts_def

lemma startswith_clash:
  assumes "startswith s p" and "take (length q) p \<noteq> take (length p) q"
  shows "\<not> startswith s q"
proof
  assume "startswith s q"
  with assms(1) have "take (length p) s = p" and "take (length q) s = q"
    by (simp_all add: startswith_def)
  then have "take (length q) p = take (length q) (take (length p) s)"
    and "take (length p) q = take (length p) (take (length q) s)" by simp_all
  then have "take (length q) p = take (length p) q" by (simp add: min.commute)
  with assms(2) show False by simp
qed

section \<open>Claim C2: headings and their spacers\<close>







section \<open>The inner loops as list functions\<close>

lemma takeWhile_stop:
  "(length (takeWhile P xs) < length xs) = (dropWhile P xs \<noteq> [])"
  by (induction xs) auto

lemma nth_after_takeWhile:
  "dropWhile P xs = y # ys \<Longrightarrow> xs ! length (takeWhile P xs) = y"
  by (induction xs) (auto split: if_splits)

lemma capture_final:
  assumes "i \<le> length lines"
  shows "(if i + length (takeWhile P (drop i lines)) < length lines
          then acc @ [f (lines ! (i + length (takeWhile P (drop i lines))))] else acc) =
         acc @ (case dropWhile P (drop i lines) of [] \<Rightarrow> [] | l # _ \<Rightarrow> [f l])"
proof (cases "dropWhile P (drop i lines)")
  case Nil
  then have "\<not> length (takeWhile P (drop i lines)) < length (drop i lines)"
    by (simp only: takeWhile_stop) simp
  with assms have "\<not> i + length (takeWhile P (drop i lines)) < length lines" by simp
  with Nil show ?thesis by (simp del: dropWhile_eq_Nil_conv)
next
  case (Cons y ys)
  then have "length (takeWhile P (drop i lines)) < length (drop i lines)"
    by (simp only: takeWhile_stop) simp
  then have lt: "i + length (takeWhile P (drop i lines)) < length lines" by simp
  from Cons have "drop i lines ! length (takeWhile P (drop i lines)) = y"
    by (rule nth_after_takeWhile)
  with lt have "lines ! (i + length (takeWhile P (drop i lines))) = y" by simp
  with lt Cons show ?thesis by simp
qed

lemma code_loop_takeWhile:
  "i \<le> length lines \<Longrightarrow>
   code_loop lines i acc =
     (i + length (takeWhile (\<lambda>l. \<not> closes_code l) (drop i lines)),
      acc @ takeWhile (\<lambda>l. \<not> closes_code l) (drop i lines))"
proof (induction lines i acc rule: code_loop.induct)
  case (1 lines i code_lines)
  show ?case
  proof (cases "i < length lines \<and> \<not> closes_code (lines ! i)")
    case True
    then have d: "drop i lines = lines ! i # drop (i + 1) lines"
      by (simp add: Cons_nth_drop_Suc)
    from True 1 have "code_loop lines (i + 1) (code_lines @ [lines ! i]) =
      (i + 1 + length (takeWhile (\<lambda>l. \<not> closes_code l) (drop (i + 1) lines)),
       (code_lines @ [lines ! i]) @ takeWhile (\<lambda>l. \<not> closes_code l) (drop (i + 1) lines))"
      by (simp add: closes_code_def)
    with True d show ?thesis
      by (subst code_loop.simps) (simp add: closes_code_def)
  next
    case False
    show ?thesis
    proof (cases "i < length lines")
      case True
      with False have c: "closes_code (lines ! i)" by simp
      from True have d: "drop i lines = lines ! i # drop (i + 1) lines"
        by (simp add: Cons_nth_drop_Suc)
      from c d True show ?thesis
        by (subst code_loop.simps) (simp add: closes_code_def)
    next
      case False
      with 1(2) have "drop i lines = []" by simp
      with False show ?thesis by (subst code_loop.simps) simp
    qed
  qed
qed


lemma table_rows_append: "table_rows (xs @ ys) = table_rows xs @ table_rows ys"
  by (simp add: table_rows_def)

lemma table_row_rows: "table_row (strip l) table_data = table_data @ table_rows [l]"
  by (simp add: table_row_def table_rows_def row_cells_def Let_def)

lemma table_loop_takeWhile:
  "i \<le> length lines \<Longrightarrow>
   table_loop lines i acc =
     (i + length (takeWhile (\<lambda>l. \<not> closes_table l) (drop i lines)),
      acc @ table_rows (takeWhile (\<lambda>l. \<not> closes_table l) (drop i lines)))"
proof (induction lines i acc rule: table_loop.induct)
  case (1 lines i table_data)
  show ?case
  proof (cases "i < length lines \<and> \<not> closes_table (lines ! i)")
    case True
    then have d: "drop i lines = lines ! i # drop (i + 1) lines"
      by (simp add: Cons_nth_drop_Suc)
    from True 1
    have "table_loop lines (i + 1) (table_row (strip (lines ! i)) table_data) =
      (i + 1 + length (takeWhile (\<lambda>l. \<not> closes_table l) (drop (i + 1) lines)),
       table_row (strip (lines ! i)) table_data
         @ table_rows (takeWhile (\<lambda>l. \<not> closes_table l) (drop (i + 1) lines)))"
      by (simp add: closes_table_def)
    moreover have "table_rows (lines ! i # takeWhile (\<lambda>l. \<not> closes_table l) (drop (i + 1) lines)) =
      table_rows [lines ! i] @ table_rows (takeWhile (\<lambda>l. \<not> closes_table l) (drop (i + 1) lines))"
      by (simp add: table_rows_def)
    ultimately show ?thesis using True d
      by (subst table_loop.simps) (simp add: closes_table_def table_row_rows)
  next
    case False
    show ?thesis
    proof (cases "i < length lines")
      case True
      with False have c: "closes_table (lines ! i)" by simp
      from True have d: "drop i lines = lines ! i # drop (i + 1) lines"
        by (simp add: Cons_nth_drop_Suc)
      from c d True show ?thesis
        by (subst table_loop.simps) (simp add: closes_table_def table_rows_def)
    next
      case False
      with 1(2) have "drop i lines = []" by simp
      with False show ?thesis by (subst table_loop.simps) (simp add: table_rows_def)
    qed
  qed
qed

section \<open>Claim C1: the multi-line code block\<close>

lemma code_branch:
  assumes "startswith line (lit ''<pre><code>'')"
  shows "line \<noteq> []"
    and "\<not> startswith line (lit ''<h1>'')" and "\<not> startswith line (lit ''<h2>'')"
    and "\<not> startswith line (lit ''<h3>'')" and "\<not> startswith line (lit ''<h4>'')"
    and "\<not> startswith line (lit ''<h5>'')" and "\<not> startswith line (lit ''<h6>'')"
proof -
  show "line \<noteq> []" using assms by (auto simp: startswith_def lit_def)
qed (rule startswith_clash [OF assms], simp add: lit_def)+

text \<open>
  Claim C1. Let the loop be at a line \<open>i\<close> whose stripped form starts with
  \<open><pre><code>\<close> and does not end with \<open></code></pre>\<close>. Whatever texts the
  constructor of paragraphs takes, the pass raises nothing and appends exactly one
  \<open>Preformatted\<close> element and one spacer. The text of the element is the join, with a
  newline, of: the stripped opening line without its tags; every following line as it
  is, up to the first line whose stripped form ends with the closing marker; and that
  line without its tags, when there is one. When the lines end before a closing marker
  the element is appended all the same, without the last part. The pass ends after the
  closing line.
\<close>

theorem code_block_capture:
  assumes "i < length lines"
    and "startswith (strip (lines ! i)) (lit ''<pre><code>'')"
    and "\<not> endswith (strip (lines ! i)) (lit ''</code></pre>'')"
  shows "step accepts lines i =
    (let rest = drop (i + 1) lines;
         middle = takeWhile (\<lambda>l. \<not> closes_code l) rest;
         final = (case dropWhile (\<lambda>l. \<not> closes_code l) rest of
                    [] \<Rightarrow> [] | l # _ \<Rightarrow> [clean_html_tags l])
     in Inr ([Preformatted (join [nl] (clean_html_tags (strip (lines ! i)) # middle @ final))
                CustomCode,
              Spacer 1 12],
             i + 1 + length middle + 1))"
proof -
  define line where "line = strip (lines ! i)"
  define P where "P = (\<lambda>l. \<not> closes_code l)"
  define middle where "middle = takeWhile P (drop (i + 1) lines)"
  from assms(1) have le: "i + 1 \<le> length lines" by simp
  note b = code_branch [OF assms(2) [folded line_def]]
  have loop: "code_loop lines (i + 1) [clean_html_tags line] =
      (i + 1 + length middle, [clean_html_tags line] @ middle)"
    unfolding middle_def P_def using le by (rule code_loop_takeWhile)
  then have loop': "code_loop lines (Suc i) [clean_html_tags line] =
      (Suc (i + length middle), clean_html_tags line # middle)"
    by simp
  have fin: "(if i + 1 + length middle < length lines
        then ([clean_html_tags line] @ middle) @ [clean_html_tags (lines ! (i + 1 + length middle))]
        else [clean_html_tags line] @ middle) =
      ([clean_html_tags line] @ middle) @
        (case dropWhile P (drop (i + 1) lines) of [] \<Rightarrow> [] | l # _ \<Rightarrow> [clean_html_tags l])"
    unfolding middle_def using le by (rule capture_final)
  have "step accepts lines i =
      Inr ([Preformatted (join [nl]
          (if i + 1 + length middle < length lines
           then ([clean_html_tags line] @ middle) @ [clean_html_tags (lines ! (i + 1 + length middle))]
           else [clean_html_tags line] @ middle)) CustomCode, Spacer 1 12],
       i + 1 + length middle + 1)"
    using b assms(2,3)
    by (simp add: step_def line_def [symmetric] loop' Let_def)
  then show ?thesis
    by (simp only: fin) (simp add: Let_def middle_def P_def line_def)
qed

theorem code_block_capture_witness:
  "0 < length [lit ''<pre><code>a'', lit '' b'', lit ''c</code></pre>'', lit ''<p>d</p>'']
   \<and> startswith (strip ([lit ''<pre><code>a'', lit '' b'', lit ''c</code></pre>'', lit ''<p>d</p>''] ! 0))
         (lit ''<pre><code>'')
   \<and> \<not> endswith (strip ([lit ''<pre><code>a'', lit '' b'', lit ''c</code></pre>'', lit ''<p>d</p>''] ! 0))
         (lit ''</code></pre>'')
   \<and> step example_accepts
         [lit ''<pre><code>a'', lit '' b'', lit ''c</code></pre>'', lit ''<p>d</p>''] 0 =
       Inr ([Preformatted (lit ''a'' @ [nl] @ lit '' b'' @ [nl] @ lit ''c'') CustomCode, Spacer 1 12], 3)"
  using code_block_capture
    [of 0 "[lit ''<pre><code>a'', lit '' b'', lit ''c</code></pre>'', lit ''<p>d</p>'']"
        example_accepts]
  by (simp add: str_defs closes_code_def)

section \<open>Claim C5: the multi-line quote\<close>





section \<open>Claim C6: tables\<close>

lemma table_branch:
  assumes "startswith line (lit ''<table>'')"
  shows "line \<noteq> []"
    and "\<not> startswith line (lit ''<h1>'')" and "\<not> startswith line (lit ''<h2>'')"
    and "\<not> startswith line (lit ''<h3>'')" and "\<not> startswith line (lit ''<h4>'')"
    and "\<not> startswith line (lit ''<h5>'')" and "\<not> startswith line (lit ''<h6>'')"
    and "\<not> startswith line (lit ''<pre><code>'')"
    and "\<not> startswith line (lit ''<blockquote>'')"
proof -
  show "line \<noteq> []" using assms by (auto simp: startswith_def lit_def)
qed (rule startswith_clash [OF assms], simp add: lit_def)+

text \<open>
  Claim C6. At a line whose stripped form starts with \<open><table>\<close>, the pass raises
  nothing, whatever texts the constructor of paragraphs takes. It goes over
  the following lines up to the first one whose stripped form starts with \<open></table>\<close>
  (or to the end of the lines). Of these lines, exactly those that start with \<open><tr>\<close>
  after stripping and yield at least one cell contribute a row, in order, the row being
  the list of the cell texts without tags. The pass appends one \<open>Table\<close> followed by one
  spacer if and only if at least one row was collected; otherwise it appends nothing.
\<close>

theorem table_capture:
  assumes "i < length lines"
    and "startswith (strip (lines ! i)) (lit ''<table>'')"
  shows "step accepts lines i =
    (let body = takeWhile (\<lambda>l. \<not> closes_table l) (drop (i + 1) lines);
         rows = filter (\<lambda>row. row \<noteq> [])
                  (map row_cells (filter (\<lambda>l. startswith (strip l) (lit ''<tr>'')) body))
     in Inr (if rows \<noteq> [] then [Table rows, Spacer 1 12] else [], i + 1 + length body + 1))"
proof -
  define line where "line = strip (lines ! i)"
  define body where "body = takeWhile (\<lambda>l. \<not> closes_table l) (drop (i + 1) lines)"
  from assms(1) have le: "i + 1 \<le> length lines" by simp
  note b = table_branch [OF assms(2) [folded line_def]]
  have loop: "table_loop lines (i + 1) [] = (i + 1 + length body, [] @ table_rows body)"
    unfolding body_def using le by (rule table_loop_takeWhile)
  then have loop': "table_loop lines (Suc i) [] = (Suc (i + length body), table_rows body)"
    by simp
  have "step accepts lines i =
      Inr (if table_rows body \<noteq> [] then [Table (table_rows body), Spacer 1 12] else [],
       i + 1 + length body + 1)"
    using b assms(2)
    by (simp add: step_def line_def [symmetric] loop')
  then show ?thesis
    by (simp add: Let_def body_def table_rows_def)
qed

theorem table_capture_witness:
  "0 < length [lit ''<table>'', lit ''<thead>'', lit ''<tr><th>a</th><th>b</th></tr>'',
               lit ''<tr></tr>'', lit ''  <tr><td><i>1</i></td><td></td></tr>'', lit ''</table>'']
   \<and> startswith
         (strip ([lit ''<table>'', lit ''<thead>'', lit ''<tr><th>a</th><th>b</th></tr>'',
                  lit ''<tr></tr>'', lit ''  <tr><td><i>1</i></td><td></td></tr>'', lit ''</table>''] ! 0))
         (lit ''<table>'')
   \<and> step example_accepts
           [lit ''<table>'', lit ''<thead>'', lit ''<tr><th>a</th><th>b</th></tr>'',
            lit ''<tr></tr>'', lit ''  <tr><td><i>1</i></td><td></td></tr>'', lit ''</table>''] 0 =
       Inr ([Table [[lit ''a'', lit ''b''], [lit ''1'', lit '''']], Spacer 1 12], 6)"
  using table_capture
    [of 0 "[lit ''<table>'', lit ''<thead>'', lit ''<tr><th>a</th><th>b</th></tr>'',
            lit ''<tr></tr>'', lit ''  <tr><td><i>1</i></td><td></td></tr>'', lit ''</table>'']"
        example_accepts]
  by (simp add: str_defs closes_table_def row_cells_def cell_open_def cell_close_def)

section \<open>Claim C9: the outer loop terminates\<close>

lemma loop_indices_lower:
  "k \<in> set (loop_indices accepts lines i) \<Longrightarrow> i \<le> k \<and> k < length lines"
proof (induction accepts lines i rule: loop_indices.induct)
  case (1 accepts lines i)
  show ?case
  proof (cases "i < length lines")
    case True
    show ?thesis
    proof (cases "step accepts lines i")
      case (Inl e)
      with 1(2) True have "k = i" by (subst (asm) loop_indices.simps) simp
      with True show ?thesis by simp
    next
      case (Inr r)
      obtain es j where r: "r = (es, j)" by (cases r)
      with Inr have s: "step accepts lines i = Inr (es, j)" by simp
      with 1(2) True have "k = i \<or> k \<in> set (loop_indices accepts lines j)"
        by (subst (asm) loop_indices.simps) simp
      then show ?thesis
      proof
        assume "k = i"
        with True show ?thesis by simp
      next
        assume "k \<in> set (loop_indices accepts lines j)"
        with 1(1) [OF True Inr r [symmetric]] have "j \<le> k \<and> k < length lines" by simp
        with step_advances [OF s] show ?thesis by simp
      qed
    qed
  next
    case False
    with 1(2) show ?thesis by (subst (asm) loop_indices.simps) simp
  qed
qed

lemma loop_indices_sorted: "sorted_wrt (<) (loop_indices accepts lines i)"
proof (induction accepts lines i rule: loop_indices.induct)
  case (1 accepts lines i)
  show ?case
  proof (cases "i < length lines")
    case True
    show ?thesis
    proof (cases "step accepts lines i")
      case (Inl e)
      with True show ?thesis by (subst loop_indices.simps) simp
    next
      case (Inr r)
      obtain es j where r: "r = (es, j)" by (cases r)
      with Inr have s: "step accepts lines i = Inr (es, j)" by simp
      have "i < k" if "k \<in> set (loop_indices accepts lines j)" for k
        using loop_indices_lower [OF that] step_advances [OF s] by simp
      with 1 [OF True Inr r [symmetric]] True s show ?thesis
        by (subst loop_indices.simps) simp
    qed
  next
    case False
    then show ?thesis by (subst loop_indices.simps) simp
  qed
qed

lemma loop_indices_length: "length (loop_indices accepts lines i) \<le> length lines - i"
proof (induction accepts lines i rule: loop_indices.induct)
  case (1 accepts lines i)
  show ?case
  proof (cases "i < length lines")
    case True
    show ?thesis
    proof (cases "step accepts lines i")
      case (Inl e)
      with True show ?thesis by (subst loop_indices.simps) simp
    next
      case (Inr r)
      obtain es j where r: "r = (es, j)" by (cases r)
      with Inr have s: "step accepts lines i = Inr (es, j)" by simp
      from 1 [OF True Inr r [symmetric]]
      have "length (loop_indices accepts lines j) \<le> length lines - j" .
      with True s step_advances [OF s] show ?thesis
        by (subst loop_indices.simps) simp
    qed
  next
    case False
    then show ?thesis by (subst loop_indices.simps) simp
  qed
qed

lemma parse_loop_passes:
  "parse_loop accepts lines i elements =
     (if \<exists>k \<in> set (loop_indices accepts lines i). raises accepts lines k then Inl ValueError
      else Inr (elements @ concat (map (pass_elements accepts lines) (loop_indices accepts lines i))))"
proof (induction accepts lines i elements rule: parse_loop.induct)
  case (1 accepts lines i elements)
  show ?case
  proof (cases "i < length lines")
    case True
    show ?thesis
    proof (cases "step accepts lines i")
      case (Inl e)
      then have "raises accepts lines i" by (simp add: raises_def)
      moreover have "e = ValueError" by (cases e)
      moreover from True Inl have "loop_indices accepts lines i = [i]"
        by (subst loop_indices.simps) simp
      ultimately show ?thesis using True Inl
        by (subst parse_loop.simps) simp
    next
      case (Inr r)
      obtain es j where r: "r = (es, j)" by (cases r)
      with Inr have s: "step accepts lines i = Inr (es, j)" by simp
      then have nr: "\<not> raises accepts lines i" and pe: "pass_elements accepts lines i = es"
        by (simp_all add: raises_def pass_elements_def)
      from 1 [OF True Inr r [symmetric]]
      have "parse_loop accepts lines j (elements @ es) =
        (if \<exists>k \<in> set (loop_indices accepts lines j). raises accepts lines k then Inl ValueError
         else Inr ((elements @ es) @
           concat (map (pass_elements accepts lines) (loop_indices accepts lines j))))" .
      moreover from True s have "loop_indices accepts lines i = i # loop_indices accepts lines j"
        by (subst loop_indices.simps) simp
      ultimately show ?thesis using True s nr pe
        by (subst parse_loop.simps) simp
    qed
  next
    case False
    then have "loop_indices accepts lines i = []" by (subst loop_indices.simps) simp
    with False show ?thesis by (subst parse_loop.simps) simp
  qed
qed

text \<open>
  Claim C9. The outer loop ends on every list of lines, whatever texts the constructor
  of paragraphs takes: \<open>parse_loop\<close> is a total function. It returns what the passes at
  the indices \<open>loop_indices accepts lines 0\<close> append, one after the other, or the
  exception of the pass that raises. Every pass starts at an index inside the list,
  and a pass that returns ends at a strictly larger index, also when it goes through
  the capture of a code block, a quote or a table. So the indices of the passes grow
  strictly, and there are at most as many passes as there are lines.
\<close>

theorem outer_loop_terminates:
  "parse_loop accepts lines 0 [] =
     (if \<exists>k \<in> set (loop_indices accepts lines 0). raises accepts lines k then Inl ValueError
      else Inr (concat (map (pass_elements accepts lines) (loop_indices accepts lines 0))))
   \<and> (\<forall>k \<in> set (loop_indices accepts lines 0).
         k < length lines \<and> (\<forall>es j. step accepts lines k = Inr (es, j) \<longrightarrow> k < j))
   \<and> sorted_wrt (<) (loop_indices accepts lines 0)
   \<and> length (loop_indices accepts lines 0) \<le> length lines"
proof (intro conjI)
  show "parse_loop accepts lines 0 [] =
     (if \<exists>k \<in> set (loop_indices accepts lines 0). raises accepts lines k then Inl ValueError
      else Inr (concat (map (pass_elements accepts lines) (loop_indices accepts lines 0))))"
    using parse_loop_passes [of accepts lines 0 "[]"] by simp
  show "\<forall>k \<in> set (loop_indices accepts lines 0).
         k < length lines \<and> (\<forall>es j. step accepts lines k = Inr (es, j) \<longrightarrow> k < j)"
    using loop_indices_lower [of _ accepts lines 0] step_advances by blast
  show "sorted_wrt (<) (loop_indices accepts lines 0)"
    by (rule loop_indices_sorted)
  show "length (loop_indices accepts lines 0) \<le> length lines"
    using loop_indices_length [of accepts lines 0] by simp
qed

theorem outer_loop_terminates_witness:
  "loop_indices example_accepts
      [lit ''<h1>T</h1>'', lit ''<pre><code>a'', lit ''b'', lit ''</code></pre>'',
       lit ''<table>'', lit ''<tr><td>c</td></tr>'', lit ''</table>'', lit ''<p>d</p>''] 0
     = [0, 1, 4, 7]
   \<and> 1 \<in> set (loop_indices example_accepts
      [lit ''<h1>T</h1>'', lit ''<pre><code>a'', lit ''b'', lit ''</code></pre>'',
       lit ''<table>'', lit ''<tr><td>c</td></tr>'', lit ''</table>'', lit ''<p>d</p>''] 0)
   \<and> step example_accepts
      [lit ''<h1>T</h1>'', lit ''<pre><code>a'', lit ''b'', lit ''</code></pre>'',
       lit ''<table>'', lit ''<tr><td>c</td></tr>'', lit ''</table>'', lit ''<p>d</p>''] 1
     = Inr ([Preformatted (lit ''a'' @ [nl] @ lit ''b'' @ [nl]) CustomCode, Spacer 1 12], 4)
   \<and> (1::nat) < 4
   \<and> parse_loop example_accepts
      [lit ''<h1>T</h1>'', lit ''<pre><code>a'', lit ''b'', lit ''</code></pre>'',
       lit ''<table>'', lit ''<tr><td>c</td></tr>'', lit ''</table>'', lit ''<p>d</p>''] 0 []
     = Inr [Paragraph (lit ''T'') CustomHeading1, Spacer 1 12,
        Preformatted (lit ''a'' @ [nl] @ lit ''b'' @ [nl]) CustomCode, Spacer 1 12,
        Table [[lit ''c'']], Spacer 1 12,
        Paragraph (lit ''d'') Normal, Spacer 1 6]"
proof -
  define L where "L = [lit ''<h1>T</h1>'', lit ''<pre><code>a'', lit ''b'', lit ''</code></pre>'',
                 lit ''<table>'', lit ''<tr><td>c</td></tr>'', lit ''</table>'', lit ''<p>d</p>'']"
  have s: "step example_accepts L 0 = Inr ([Paragraph (lit ''T'') CustomHeading1, Spacer 1 12], 1)"
    "step example_accepts L (Suc 0) =
       Inr ([Preformatted (lit ''a'' @ [nl] @ lit ''b'' @ [nl]) CustomCode, Spacer 1 12], 4)"
    "step example_accepts L 4 = Inr ([Table [[lit ''c'']], Spacer 1 12], 7)"
    "step example_accepts L 7 = Inr ([Paragraph (lit ''d'') Normal, Spacer 1 6], 8)"
    by (simp_all add: L_def step_defs str_defs code_loop.simps table_loop.simps table_row_def
        cell_open_def cell_close_def)
  have len: "length L = 8" by (simp add: L_def)
  have li: "loop_indices example_accepts L 0 = [0, 1, 4, 7]"
    by (simp add: loop_indices.simps s len)
  from outer_loop_terminates [of example_accepts L]
  have "parse_loop example_accepts L 0 [] =
     (if \<exists>k \<in> set (loop_indices example_accepts L 0). raises example_accepts L k
      then Inl ValueError
      else Inr (concat (map (pass_elements example_accepts L) (loop_indices example_accepts L 0))))"
    and "\<forall>k \<in> set (loop_indices example_accepts L 0).
         k < length L \<and> (\<forall>es j. step example_accepts L k = Inr (es, j) \<longrightarrow> k < j)"
    by blast+
  then have "parse_loop example_accepts L 0 [] = Inr [Paragraph (lit ''T'') CustomHeading1, Spacer 1 12,
        Preformatted (lit ''a'' @ [nl] @ lit ''b'' @ [nl]) CustomCode, Spacer 1 12,
        Table [[lit ''c'']], Spacer 1 12,
        Paragraph (lit ''d'') Normal, Spacer 1 6]"
    by (simp add: li s raises_def pass_elements_def)
  with li s(2) show ?thesis unfolding L_def by simp
qed

section \<open>Claim C10: every spacer follows a content element\<close>

lemma emit_shape:
  "emit (new_paragraph accepts text style) h j = Inr (es, j') \<Longrightarrow>
   \<exists>c. es = [c, Spacer 1 h] \<and> \<not> is_spacer c"
  by (auto simp: emit_def new_paragraph_def split: if_splits)

lemma step_shape:
  assumes "step accepts lines i = Inr (es, j)"
  shows "es = [] \<or> (\<exists>c w h. es = [c, Spacer w h] \<and> \<not> is_spacer c)"
  using assms
  by (auto simp: step_def Let_def split_beta dest!: emit_shape split: if_splits)

lemma pass_elements_shape:
  "pass_elements accepts lines k = [] \<or>
   (\<exists>c w h. pass_elements accepts lines k = [c, Spacer w h] \<and> \<not> is_spacer c)"
proof (cases "step accepts lines k")
  case (Inl e)
  then show ?thesis by (simp add: pass_elements_def)
next
  case (Inr r)
  obtain es j where "r = (es, j)" by (cases r)
  with Inr have s: "step accepts lines k = Inr (es, j)" by simp
  then have "pass_elements accepts lines k = es" by (simp add: pass_elements_def)
  with step_shape [OF s] show ?thesis by simp
qed

lemma follows_content_concat:
  assumes "\<forall>x \<in> set chunks. x = [] \<or> (\<exists>c w h. x = [c, Spacer w h] \<and> \<not> is_spacer c)"
  shows "follows_content False (concat chunks)"
  using assms by (induction chunks) auto

lemma follows_content_nth:
  "follows_content prev es \<Longrightarrow> k < length es \<Longrightarrow> is_spacer (es ! k) \<Longrightarrow>
   (if k = 0 then prev else \<not> is_spacer (es ! (k - 1)))"
proof (induction es arbitrary: prev k)
  case Nil
  then show ?case by simp
next
  case (Cons e es)
  show ?case
  proof (cases k)
    case 0
    with Cons.prems show ?thesis by simp
  next
    case (Suc m)
    with Cons.prems have "follows_content (\<not> is_spacer e) es" "m < length es" "is_spacer (es ! m)"
      by simp_all
    from Cons.IH [OF this]
    have "if m = 0 then \<not> is_spacer e else \<not> is_spacer (es ! (m - 1))" .
    with Suc show ?thesis by (cases m) simp_all
  qed
qed

text \<open>
  Claim C10. In every list of elements that the loop returns, every spacer has a
  predecessor, and the predecessor is not a spacer. So the list does not begin with a
  spacer and holds no two spacers in a row. The same holds for every result of
  \<open>parse_markdown_to_elements\<close>, whatever the Markdown library returns and whatever
  texts the constructor of paragraphs takes. (When a pass raises, no list is returned.)
\<close>

theorem spacer_follows_content:
  assumes "parse_loop accepts lines 0 [] = Inr es
      \<or> parse_markdown_to_elements markdown accepts content = Inr es"
    and "k < length es" and "is_spacer (es ! k)"
  shows "0 < k \<and> \<not> is_spacer (es ! (k - 1))"
proof -
  have fc: "follows_content False xs" if "parse_loop accepts ls 0 [] = Inr xs" for ls xs
  proof -
    have "follows_content False
        (concat (map (pass_elements accepts ls) (loop_indices accepts ls 0)))"
      by (rule follows_content_concat) (use pass_elements_shape in auto)
    moreover from that parse_loop_passes [of accepts ls 0 "[]"]
    have "xs = concat (map (pass_elements accepts ls) (loop_indices accepts ls 0))"
      by (simp split: if_splits)
    ultimately show ?thesis by simp
  qed
  from assms(1) have "follows_content False es"
    using fc by (auto simp: parse_markdown_to_elements_def)
  from follows_content_nth [OF this assms(2,3)] show ?thesis
    by (cases "k = 0") simp_all
qed

theorem spacer_follows_content_witness:
  "parse_loop example_accepts [lit ''<h3>T</h3>'', lit '''', lit ''<li>x</li>''] 0 [] =
     Inr [Paragraph (lit ''T'') CustomHeading3, Spacer 1 8,
          Paragraph (bullet @ lit ''x'') Normal, Spacer 1 3]
   \<and> (3::nat) < length [Paragraph (lit ''T'') CustomHeading3, Spacer 1 8,
          Paragraph (bullet @ lit ''x'') Normal, Spacer 1 3]
   \<and> is_spacer ([Paragraph (lit ''T'') CustomHeading3, Spacer 1 8,
          Paragraph (bullet @ lit ''x'') Normal, Spacer 1 3] ! 3)
   \<and> \<not> is_spacer ([Paragraph (lit ''T'') CustomHeading3, Spacer 1 8,
          Paragraph (bullet @ lit ''x'') Normal, Spacer 1 3] ! (3 - 1))"
proof -
  have run: "parse_loop example_accepts [lit ''<h3>T</h3>'', lit '''', lit ''<li>x</li>''] 0 [] =
     Inr [Paragraph (lit ''T'') CustomHeading3, Spacer 1 8,
          Paragraph (bullet @ lit ''x'') Normal, Spacer 1 3]"
    by (simp add: parse_loop.simps step_defs str_defs bullet_def)
  from spacer_follows_content
    [of example_accepts "[lit ''<h3>T</h3>'', lit '''', lit ''<li>x</li>'']"
        "[Paragraph (lit ''T'') CustomHeading3, Spacer 1 8,
          Paragraph (bullet @ lit ''x'') Normal, Spacer 1 3]" id "[]" 3] run
  show ?thesis by simp
qed

section \<open>The batch loops\<close>

lemma main_files_count:
  assumes "main_files env out fs (n, printed, called, w) = (n', printed', called', w')"
    and "n = length (filter (\<lambda>c. snd (snd c)) called)"
  shows "n' = length (filter (\<lambda>c. snd (snd c)) called')"
  using assms
proof (induction fs arbitrary: n printed called w)
  case Nil
  then show ?case by auto
next
  case (Cons f fs)
  show ?case
  proof (cases "\<not> path_exists env w f \<or>
      \<not> (endswith (lower env f) (lit ''.md'') \<or> endswith (lower env f) (lit ''.markdown''))")
    case True
    with Cons.prems(1) obtain p where
      "main_files env out fs (n, p, called, w) = (n', printed', called', w')"
      by (auto split: if_splits)
    from Cons.IH [OF this Cons.prems(2)] show ?thesis .
  next
    case False
    obtain ok w2 where c: "convert env f (if truthy out then out else None) w = (ok, w2)"
      by (cases "convert env f (if truthy out then out else None) w")
    with False Cons.prems(1)
    have "main_files env out fs
        (if ok then n + 1 else n, printed,
         called @ [(f, if truthy out then out else None, ok)], w2) = (n', printed', called', w')"
      by (simp add: Let_def)
    moreover from Cons.prems(2)
    have "(if ok then n + 1 else n) =
        length (filter (\<lambda>c. snd (snd c)) (called @ [(f, if truthy out then out else None, ok)]))"
      by simp
    ultimately show ?thesis by (rule Cons.IH)
  qed
qed

lemma main_windows_files_count:
  assumes "main_windows_files env out fs (n, printed, called, w) = (n', printed', called', w')"
    and "n = length (filter (\<lambda>c. snd (snd c)) called)"
  shows "n' = length (filter (\<lambda>c. snd (snd c)) called')"
  using assms
proof (induction fs arbitrary: n printed called w)
  case Nil
  then show ?case by auto
next
  case (Cons f fs)
  show ?case
  proof (cases "\<not> path_exists env w f \<or>
      \<not> (endswith (lower env f) (lit ''.md'') \<or> endswith (lower env f) (lit ''.markdown''))")
    case True
    with Cons.prems(1) obtain p where
      "main_windows_files env out fs (n, p, called, w) = (n', printed', called', w')"
      by (auto split: if_splits)
    from Cons.IH [OF this Cons.prems(2)] show ?thesis .
  next
    case False
    obtain ok w2 where c: "convert env f (if truthy out then out else None) w = (ok, w2)"
      by (cases "convert env f (if truthy out then out else None) w")
    with False Cons.prems(1)
    have "main_windows_files env out fs
        (if ok then n + 1 else n, printed,
         called @ [(f, if truthy out then out else None, ok)], w2) = (n', printed', called', w')"
      by (simp add: Let_def)
    moreover from Cons.prems(2)
    have "(if ok then n + 1 else n) =
        length (filter (\<lambda>c. snd (snd c)) (called @ [(f, if truthy out then out else None, ok)]))"
      by simp
    ultimately show ?thesis by (rule Cons.IH)
  qed
qed

lemma denominators_append: "denominators (xs @ ys) = denominators xs @ denominators ys"
  by (induction xs rule: denominators.induct) simp_all

lemma main_files_printed:
  assumes "main_files env out fs (n, printed, called, w) = (n', printed', called', w')"
  shows "denominators printed' = denominators printed"
  using assms
proof (induction fs arbitrary: n printed called w)
  case Nil
  then show ?case by auto
next
  case (Cons f fs)
  show ?case
  proof (cases "path_exists env w f")
    case False
    with Cons.prems
    have "main_files env out fs (n, printed @ [NotExistWarning f], called, w) =
        (n', printed', called', w')" by simp
    from Cons.IH [OF this] show ?thesis by (simp add: denominators_append)
  next
    case True
    show ?thesis
    proof (cases "endswith (lower env f) (lit ''.md'') \<or> endswith (lower env f) (lit ''.markdown'')")
      case False
      with True Cons.prems
      have "main_files env out fs (n, printed @ [NotMarkdownWarning f], called, w) =
          (n', printed', called', w')" by simp
      from Cons.IH [OF this] show ?thesis by (simp add: denominators_append)
    next
      case md: True
      obtain ok w2 where c: "convert env f (if truthy out then out else None) w = (ok, w2)"
        by (cases "convert env f (if truthy out then out else None) w")
      with True md Cons.prems
      have "main_files env out fs
          (if ok then n + 1 else n, printed,
           called @ [(f, if truthy out then out else None, ok)], w2) = (n', printed', called', w')"
        by (simp add: Let_def)
      from Cons.IH [OF this] show ?thesis .
    qed
  qed
qed

lemma main_windows_files_printed:
  assumes "main_windows_files env out fs (n, printed, called, w) = (n', printed', called', w')"
  shows "denominators printed' = denominators printed"
  using assms
proof (induction fs arbitrary: n printed called w)
  case Nil
  then show ?case by auto
next
  case (Cons f fs)
  show ?case
  proof (cases "path_exists env w f")
    case False
    with Cons.prems
    have "main_windows_files env out fs (n, printed @ [NotExistWarning f], called, w) =
        (n', printed', called', w')" by simp
    from Cons.IH [OF this] show ?thesis by (simp add: denominators_append)
  next
    case True
    show ?thesis
    proof (cases "endswith (lower env f) (lit ''.md'') \<or> endswith (lower env f) (lit ''.markdown'')")
      case False
      with True Cons.prems
      have "main_windows_files env out fs (n, printed @ [NotMarkdownWarning f], called, w) =
          (n', printed', called', w')" by simp
      from Cons.IH [OF this] show ?thesis by (simp add: denominators_append)
    next
      case md: True
      obtain ok w2 where c: "convert env f (if truthy out then out else None) w = (ok, w2)"
        by (cases "convert env f (if truthy out then out else None) w")
      with True md Cons.prems
      have "main_windows_files env out fs
          (if ok then n + 1 else n, printed,
           called @ [(f, if truthy out then out else None, ok)], w2) = (n', printed', called', w')"
        by (simp add: Let_def)
      from Cons.IH [OF this] show ?thesis .
    qed
  qed
qed

lemma main_denominators:
  "denominators (stdout (main env a w)) =
     (if length (input_files a) > 1 \<and> truthy (output' a) then [] else [length (input_files a)])"
proof (cases "length (input_files a) > 1 \<and> truthy (output' a)")
  case True
  then show ?thesis by (simp add: main_def)
next
  case False
  obtain n p c w' where r: "main_files env (output' a) (input_files a) (0, [], [], w) = (n, p, c, w')"
    by (cases "main_files env (output' a) (input_files a) (0, [], [], w)") auto
  from main_files_printed [OF r] have "denominators p = []" by simp
  with False r show ?thesis by (simp add: main_def denominators_append)
qed

lemma main_windows_denominators:
  "denominators (stdout (main_windows env a w)) =
     (if length (input_files a) > 1 \<and> truthy (output' a) then [] else [length (input_files a)])"
proof (cases "length (input_files a) > 1 \<and> truthy (output' a)")
  case True
  then show ?thesis by (simp add: main_windows_def)
next
  case False
  obtain n p c w' where r:
    "main_windows_files env (output' a) (input_files a) (0, [], [], w) = (n, p, c, w')"
    by (cases "main_windows_files env (output' a) (input_files a) (0, [], [], w)") auto
  from main_windows_files_printed [OF r] have "denominators p = []" by simp
  with False r show ?thesis by (simp add: main_windows_def denominators_append)
qed

lemma main_files_all_skipped:
  assumes "\<forall>f \<in> set fs. skipped env w f"
  shows "\<exists>p. main_files env out fs (n, printed, called, w) = (n, p, called, w)"
  using assms by (induction fs arbitrary: printed) (auto simp: skipped_def)

lemma main_windows_files_all_skipped:
  assumes "\<forall>f \<in> set fs. skipped env w f"
  shows "\<exists>p. main_windows_files env out fs (n, printed, called, w) = (n, p, called, w)"
  using assms by (induction fs arbitrary: printed) (auto simp: skipped_def)

lemma main_exit_code:
  assumes "\<not> (length (input_files a) > 1 \<and> truthy (output' a))"
  shows "exit_code (main env a w) =
      (if \<exists>c \<in> set (calls (main env a w)). snd (snd c) then 0 else 1)"
proof -
  obtain n p c w' where r: "main_files env (output' a) (input_files a) (0, [], [], w) = (n, p, c, w')"
    by (cases "main_files env (output' a) (input_files a) (0, [], [], w)") auto
  from main_files_count [OF r] have "n = length (filter (\<lambda>c. snd (snd c)) c)" by simp
  then have "(n = 0) = (\<not> (\<exists>x \<in> set c. snd (snd x)))"
    by (simp add: filter_empty_conv)
  with assms r show ?thesis by (simp add: main_def)
qed

lemma main_windows_exit_code:
  assumes "\<not> (length (input_files a) > 1 \<and> truthy (output' a))"
  shows "exit_code (main_windows env a w) =
      (if \<exists>c \<in> set (calls (main_windows env a w)). snd (snd c) then 0 else 1)"
proof -
  obtain n p c w' where r:
    "main_windows_files env (output' a) (input_files a) (0, [], [], w) = (n, p, c, w')"
    by (cases "main_windows_files env (output' a) (input_files a) (0, [], [], w)") auto
  from main_windows_files_count [OF r] have "n = length (filter (\<lambda>c. snd (snd c)) c)" by simp
  then have "(n = 0) = (\<not> (\<exists>x \<in> set c. snd (snd x)))"
    by (simp add: filter_empty_conv)
  with assms r show ?thesis by (simp add: main_windows_def)
qed

lemma main_all_skipped:
  assumes "\<not> (length (input_files a) > 1 \<and> truthy (output' a))"
    and "\<forall>f \<in> set (input_files a). skipped env w f"
  shows "exit_code (main env a w) = 1 \<and> calls (main env a w) = []"
proof -
  from main_files_all_skipped [OF assms(2)] obtain p where
    "main_files env (output' a) (input_files a) (0, [], [], w) = (0, p, [], w)" by blast
  with assms(1) show ?thesis by (simp add: main_def)
qed

lemma main_windows_all_skipped:
  assumes "\<not> (length (input_files a) > 1 \<and> truthy (output' a))"
    and "\<forall>f \<in> set (input_files a). skipped env w f"
  shows "exit_code (main_windows env a w) = 1 \<and> calls (main_windows env a w) = []"
proof -
  from main_windows_files_all_skipped [OF assms(2)] obtain p where
    "main_windows_files env (output' a) (input_files a) (0, [], [], w) = (0, p, [], w)" by blast
  with assms(1) show ?thesis by (simp add: main_windows_def)
qed

lemmas main_defs = main_def main_windows_def example_env_def truthy_def skipped_def

section \<open>Claim C4: the denominator of the summary line\<close>

text \<open>
  Claim C4, as stated, says that for some batch with a skipped file the two programs
  print different denominators. There is no such batch: whatever the files, the world
  and the conversions do, the summary lines of the two programs carry the same
  denominators.
\<close>

theorem denominators_differ_counterexample:
  "\<not> (\<exists>(env :: (str list) env) env' a w w'.
        (\<exists>f \<in> set (input_files a). skipped env w f) \<and>
        denominators (stdout (main env a w)) \<noteq> denominators (stdout (main_windows env' a w')))"
  by (simp add: main_denominators main_windows_denominators)

text \<open>
  Claim C4, amended. The two programs agree: both set \<open>total_count\<close> to the number of
  input arguments before the loop, so a file skipped by the check of existence and
  extension counts toward the denominator in both. For every invocation that goes past
  the check of the output flag, each program prints one summary line, with the number
  of input arguments as denominator.
\<close>

theorem denominators_agree:
  "denominators (stdout (main env a w)) = denominators (stdout (main_windows env' a w'))
   \<and> (\<not> (length (input_files a) > 1 \<and> truthy (output' a)) \<longrightarrow>
        denominators (stdout (main env a w)) = [length (input_files a)]
        \<and> denominators (stdout (main_windows env' a w')) = [length (input_files a)])"
  by (simp add: main_denominators main_windows_denominators)

theorem denominators_agree_witness:
  "skipped example_env [lit ''a.md'', lit ''notes.txt''] (lit ''notes.txt'')
   \<and> \<not> (length (input_files \<lparr>input_files = [lit ''a.md'', lit ''notes.txt''], output' = None\<rparr>) > 1
          \<and> truthy (output' \<lparr>input_files = [lit ''a.md'', lit ''notes.txt''], output' = None\<rparr>))
   \<and> stdout (main example_env \<lparr>input_files = [lit ''a.md'', lit ''notes.txt''], output' = None\<rparr>
        [lit ''a.md'', lit ''notes.txt'']) = [NotMarkdownWarning (lit ''notes.txt''), Summary 1 2]
   \<and> denominators (stdout (main example_env
        \<lparr>input_files = [lit ''a.md'', lit ''notes.txt''], output' = None\<rparr>
        [lit ''a.md'', lit ''notes.txt''])) = [2]
   \<and> denominators (stdout (main_windows example_env
        \<lparr>input_files = [lit ''a.md'', lit ''notes.txt''], output' = None\<rparr>
        [lit ''a.md'', lit ''notes.txt''])) = [2]"
  using denominators_agree
    [of example_env "\<lparr>input_files = [lit ''a.md'', lit ''notes.txt''], output' = None\<rparr>"
        "[lit ''a.md'', lit ''notes.txt'']" example_env "[lit ''a.md'', lit ''notes.txt'']"]
  by (simp add: main_defs str_defs)

section \<open>Claim C7: the output flag with several input files\<close>

text \<open>
  Claim C7, as stated, covers every invocation with several input files and the flag
  \<open>--output\<close> set. The check is \<open>len(args.input_files) > 1 and args.output\<close>, and an
  empty string is false there: with \<open>--output ''\<close> and two files both programs go on,
  convert both files and exit with code 0.
\<close>

theorem output_conflict_counterexample:
  "length (input_files \<lparr>input_files = [lit ''a.md'', lit ''b.md''], output' = Some []\<rparr>) > 1
   \<and> output' \<lparr>input_files = [lit ''a.md'', lit ''b.md''], output' = Some []\<rparr> \<noteq> None
   \<and> main example_env \<lparr>input_files = [lit ''a.md'', lit ''b.md''], output' = Some []\<rparr>
        [lit ''a.md'', lit ''b.md''] =
       \<lparr>exit_code = 0, stdout = [Summary 2 2],
        calls = [(lit ''a.md'', None, True), (lit ''b.md'', None, True)],
        world = [lit ''a.md'', lit ''b.md'', lit ''a.pdf'', lit ''b.pdf'']\<rparr>
   \<and> main_windows example_env \<lparr>input_files = [lit ''a.md'', lit ''b.md''], output' = Some []\<rparr>
        [lit ''a.md'', lit ''b.md''] =
       \<lparr>exit_code = 0, stdout = [Summary 2 2],
        calls = [(lit ''a.md'', None, True), (lit ''b.md'', None, True)],
        world = [lit ''a.md'', lit ''b.md'', lit ''a.pdf'', lit ''b.pdf'']\<rparr>"
  by (simp add: main_defs str_defs)

text \<open>
  Claim C7, amended. For every invocation with more than one input file and a
  non-empty value of \<open>--output\<close>, each program prints the conflict error and exits
  with code 1 before it looks at any file: it makes no call of
  \<open>convert_markdown_to_pdf\<close> and leaves the world as it was, so no PDF is produced.
\<close>

theorem output_conflict:
  assumes "length (input_files a) > 1" and "output' a = Some name" and "name \<noteq> []"
  shows "main env a w = \<lparr>exit_code = 1, stdout = [ConflictError], calls = [], world = w\<rparr>
    \<and> main_windows env a w = \<lparr>exit_code = 1, stdout = [ConflictError], calls = [], world = w\<rparr>"
  using assms by (simp add: main_def main_windows_def truthy_def)

theorem output_conflict_witness:
  "length (input_files \<lparr>input_files = [lit ''a.md'', lit ''b.md''], output' = Some (lit ''out.pdf'')\<rparr>) > 1
   \<and> output' \<lparr>input_files = [lit ''a.md'', lit ''b.md''], output' = Some (lit ''out.pdf'')\<rparr>
       = Some (lit ''out.pdf'')
   \<and> lit ''out.pdf'' \<noteq> []
   \<and> main example_env \<lparr>input_files = [lit ''a.md'', lit ''b.md''], output' = Some (lit ''out.pdf'')\<rparr>
        [lit ''a.md'', lit ''b.md''] =
       \<lparr>exit_code = 1, stdout = [ConflictError], calls = [], world = [lit ''a.md'', lit ''b.md'']\<rparr>
   \<and> main_windows example_env \<lparr>input_files = [lit ''a.md'', lit ''b.md''], output' = Some (lit ''out.pdf'')\<rparr>
        [lit ''a.md'', lit ''b.md''] =
       \<lparr>exit_code = 1, stdout = [ConflictError], calls = [], world = [lit ''a.md'', lit ''b.md'']\<rparr>"
  using output_conflict
    [of "\<lparr>input_files = [lit ''a.md'', lit ''b.md''], output' = Some (lit ''out.pdf'')\<rparr>"
        "lit ''out.pdf''" example_env "[lit ''a.md'', lit ''b.md'']"]
  by (simp add: lit_def)

section \<open>Claim C8: the exit code of a batch\<close>

text \<open>
  Claim C8. For every invocation that goes past the check of the output flag, each
  program exits with code 0 if and only if at least one call of
  \<open>convert_markdown_to_pdf\<close> returned \<open>True\<close>, and with code 1 otherwise. When every
  input is skipped by the check of existence and extension, no call is made and the
  exit code is 1.
\<close>

theorem batch_exit_code:
  assumes "\<not> (length (input_files a) > 1 \<and> truthy (output' a))"
  shows "exit_code (main env a w) =
        (if \<exists>c \<in> set (calls (main env a w)). snd (snd c) then 0 else 1)
    \<and> exit_code (main_windows env a w) =
        (if \<exists>c \<in> set (calls (main_windows env a w)). snd (snd c) then 0 else 1)
    \<and> ((\<forall>f \<in> set (input_files a). skipped env w f) \<longrightarrow>
         exit_code (main env a w) = 1 \<and> calls (main env a w) = []
         \<and> exit_code (main_windows env a w) = 1 \<and> calls (main_windows env a w) = [])"
proof (intro conjI impI)
  show "exit_code (main env a w) =
      (if \<exists>c \<in> set (calls (main env a w)). snd (snd c) then 0 else 1)"
    using assms by (rule main_exit_code)
  show "exit_code (main_windows env a w) =
      (if \<exists>c \<in> set (calls (main_windows env a w)). snd (snd c) then 0 else 1)"
    using assms by (rule main_windows_exit_code)
next
  assume s: "\<forall>f \<in> set (input_files a). skipped env w f"
  from main_all_skipped [OF assms s]
  show "exit_code (main env a w) = 1" and "calls (main env a w) = []" by simp_all
  from main_windows_all_skipped [OF assms s]
  show "exit_code (main_windows env a w) = 1" and "calls (main_windows env a w) = []"
    by simp_all
qed

theorem batch_exit_code_witness:
  "\<not> (length (input_files \<lparr>input_files = [lit ''notes.txt'', lit ''README.MD'', lit ''gone.md''],
                           output' = None\<rparr>) > 1
       \<and> truthy (output' \<lparr>input_files = [lit ''notes.txt'', lit ''README.MD'', lit ''gone.md''],
                           output' = None\<rparr>))
   \<and> main example_env
        \<lparr>input_files = [lit ''notes.txt'', lit ''README.MD'', lit ''gone.md''], output' = None\<rparr>
        [lit ''notes.txt'', lit ''README.MD''] =
       \<lparr>exit_code = 0,
        stdout = [NotMarkdownWarning (lit ''notes.txt''), NotExistWarning (lit ''gone.md''),
                  Summary 1 3],
        calls = [(lit ''README.MD'', None, True)],
        world = [lit ''notes.txt'', lit ''README.MD'', lit ''README.pdf'']\<rparr>
   \<and> skipped example_env [lit ''notes.txt''] (lit ''notes.txt'')
   \<and> skipped example_env [lit ''notes.txt''] (lit ''gone.md'')
   \<and> exit_code (main_windows example_env
        \<lparr>input_files = [lit ''notes.txt'', lit ''gone.md''], output' = None\<rparr> [lit ''notes.txt'']) = 1"
proof -
  let ?a = "\<lparr>input_files = [lit ''notes.txt'', lit ''README.MD'', lit ''gone.md''], output' = None\<rparr>"
  let ?b = "\<lparr>input_files = [lit ''notes.txt'', lit ''gone.md''], output' = None\<rparr>"
  have run: "main example_env ?a [lit ''notes.txt'', lit ''README.MD''] =
       \<lparr>exit_code = 0,
        stdout = [NotMarkdownWarning (lit ''notes.txt''), NotExistWarning (lit ''gone.md''),
                  Summary 1 3],
        calls = [(lit ''README.MD'', None, True)],
        world = [lit ''notes.txt'', lit ''README.MD'', lit ''README.pdf'']\<rparr>"
    by (simp add: main_defs str_defs)
  have sk: "skipped example_env [lit ''notes.txt''] (lit ''notes.txt'')"
    "skipped example_env [lit ''notes.txt''] (lit ''gone.md'')"
    by (simp_all add: main_defs str_defs)
  have pass: "\<not> (length (input_files ?a) > 1 \<and> truthy (output' ?a))"
    "\<not> (length (input_files ?b) > 1 \<and> truthy (output' ?b))"
    by (simp_all add: truthy_def)
  from batch_exit_code [OF pass(2), of example_env "[lit ''notes.txt'']"] sk
  have "exit_code (main_windows example_env ?b [lit ''notes.txt'']) = 1" by simp
  moreover from batch_exit_code [OF pass(1), of example_env "[lit ''notes.txt'', lit ''README.MD'']"]
  have "exit_code (main example_env ?a [lit ''notes.txt'', lit ''README.MD'']) = 0"
    by (simp add: run)
  ultimately show ?thesis using run sk pass(1) by simp
qed

end
